theory Spec2Isabelle
  imports Main "HOL-Library.Word"
begin

unbundle bit_operations_syntax

section \<open>Kernel-introspection utilities of the Elkeid driver (util.c)\<close>

type_synonym byte = "8 word"
type_synonym u64 = "64 word"

text \<open>
  A pointer to bytes (\<^verbatim>\<open>char *\<close>, \<^verbatim>\<open>const char *\<close>) that is only read is modelled by the
  memory it points into: a function from the index used in \<^verbatim>\<open>p[i]\<close> to the byte stored
  there.
\<close>

type_synonym bytes_at = "int \<Rightarrow> byte"

section \<open>Fingerprint hasher: hash_murmur_OAAT64\<close>

text \<open>
  The conversion \<^verbatim>\<open>(uint64_t)(s[i])\<close> of a plain \<^verbatim>\<open>char\<close>. Whether plain \<^verbatim>\<open>char\<close>
  is signed is fixed by the compiler and its flags, so it is a parameter of the build:
  a signed \<^verbatim>\<open>char\<close> is sign-extended to 64 bits, an unsigned one zero-extended.
\<close>

definition char_to_u64 :: "bool \<Rightarrow> byte \<Rightarrow> u64" where
  "char_to_u64 char_signed c = (if char_signed then scast c else ucast c)"

text \<open>The body of the \<^verbatim>\<open>for\<close> loop: the three assignments to \<^verbatim>\<open>h\<close>, in order.\<close>

definition hash_round :: "bool \<Rightarrow> u64 \<Rightarrow> byte \<Rightarrow> u64" where
  "hash_round char_signed h c =
     (let h1 = h XOR char_to_u64 char_signed c;
          h2 = h1 * 0x5bd1e9955bd1e995
      in h2 XOR drop_bit 47 h2)"

text \<open>
  The loop \<^verbatim>\<open>for (i = 0; i < len; i++)\<close>. Both \<^verbatim>\<open>i\<close> and \<^verbatim>\<open>len\<close> are C \<^verbatim>\<open>int\<close>;
  \<^verbatim>\<open>i\<close> is only incremented while \<^verbatim>\<open>i < len\<close>, so it never leaves the range of \<^verbatim>\<open>int\<close>
  and no wrap-around is written.
\<close>

function hash_loop :: "bool \<Rightarrow> bytes_at \<Rightarrow> int \<Rightarrow> int \<Rightarrow> u64 \<Rightarrow> u64" where
  "hash_loop char_signed s len i h =
     (if i < len then hash_loop char_signed s len (i + 1) (hash_round char_signed h (s i))
      else h)"
  by pat_completeness auto
termination
  by (relation "measure (\<lambda>(char_signed, s, len, i, h). nat (len - i))") auto

declare hash_loop.simps [simp del]

definition hash_murmur_OAAT64 :: "bool \<Rightarrow> bytes_at \<Rightarrow> int \<Rightarrow> u64" where
  "hash_murmur_OAAT64 char_signed s len = hash_loop char_signed s len 0 525201411107845655"

text \<open>
  The hasher as the specification words it, for comparison with the code: start from the
  seed; for each byte, XOR the byte (a value from 0 to 255) into the accumulator, multiply
  by the odd constant, XOR the accumulator with itself shifted right by 47 bits.
\<close>

definition spec_round :: "u64 \<Rightarrow> byte \<Rightarrow> u64" where
  "spec_round acc b =
     (let acc1 = acc XOR ucast b;
          acc2 = acc1 * 0x5bd1e9955bd1e995
      in acc2 XOR drop_bit 47 acc2)"

definition spec_hash :: "byte list \<Rightarrow> u64" where
  "spec_hash bs = foldl spec_round 525201411107845655 bs"

text \<open>
  Concrete inputs: the memory behind a pointer to the given bytes (zero beyond them).
\<close>

definition bytes_of :: "byte list \<Rightarrow> bytes_at" where
  "bytes_of bs i = (if 0 \<le> i \<and> i < int (length bs) then bs ! nat i else 0)"

section \<open>Path reconstructor: prepend, prepend_name, smith_dentry_path\<close>

text \<open>
  Memory that is written: a function from addresses to bytes. Addresses are integers; the
  buffer of \<^verbatim>\<open>smith_dentry_path\<close> is the range from \<^verbatim>\<open>buf\<close> up to, not including,
  \<^verbatim>\<open>buf + buflen\<close>.
\<close>

type_synonym memory = "int \<Rightarrow> byte"

text \<open>
  From the Linux headers, which util.c includes: the error number \<^verbatim>\<open>ENAMETOOLONG\<close>, and
  \<^verbatim>\<open>ERR_PTR\<close>, which turns a negative error number into a pointer value that no object
  has. The result of \<^verbatim>\<open>smith_dentry_path\<close> is either such an error pointer or an address.
\<close>

definition ENAMETOOLONG :: int where
  "ENAMETOOLONG = 36"

datatype char_ptr = ERR_PTR int | Ptr int

text \<open>
  From the Linux headers: \<^verbatim>\<open>struct qstr\<close> (the length \<^verbatim>\<open>len\<close>, an unsigned 32-bit
  number, and the pointer \<^verbatim>\<open>name\<close> to the bytes) and the fields of \<^verbatim>\<open>struct dentry\<close>
  that the walk reads. A \<^verbatim>\<open>struct dentry *\<close> is an address in the dentry cache, which
  maps each address to the dentry stored there. \<^verbatim>\<open>IS_ROOT(x)\<close> is \<^verbatim>\<open>(x) == (x)->d_parent\<close>.
  Name lengths are taken below \<open>2\<^sup>3\<^sup>1\<close>, where the conversion of \<^verbatim>\<open>len\<close> to the \<^verbatim>\<open>int\<close>
  parameter \<^verbatim>\<open>namelen\<close> keeps the value.
\<close>

record qstr =
  len :: nat
  name :: bytes_at

record dentry =
  d_parent :: nat
  d_name :: qstr

type_synonym dcache = "nat \<Rightarrow> dentry"

definition IS_ROOT :: "dcache \<Rightarrow> nat \<Rightarrow> bool" where
  "IS_ROOT dc x = (x = d_parent (dc x))"

text \<open>\<^verbatim>\<open>memcpy(dest, src, n)\<close>: the \<open>n\<close> bytes from \<open>dest\<close> on become those of \<open>src\<close>.\<close>

definition memcpy :: "memory \<Rightarrow> int \<Rightarrow> bytes_at \<Rightarrow> int \<Rightarrow> memory" where
  "memcpy m dest src n = (\<lambda>a. if dest \<le> a \<and> a < dest + n then src (a - dest) else m a)"

text \<open>
  What \<^verbatim>\<open>prepend\<close> reads and writes through its pointer parameters: the memory, the
  cursor \<^verbatim>\<open>*buffer\<close> and the remaining capacity \<^verbatim>\<open>*buflen\<close>. The capacity is a C
  \<^verbatim>\<open>int\<close>; starting from a capacity that is not negative, it is at least
  \<open>- 2\<^sup>3\<^sup>1 + 1\<close> after any subtraction of a name length, and the function returns at
  the first negative value, so no wrap-around is written.
\<close>

record pbuf =
  mem :: memory
  buffer :: int
  buflen :: int

definition prepend :: "pbuf \<Rightarrow> bytes_at \<Rightarrow> int \<Rightarrow> int \<times> pbuf" where
  "prepend st str namelen =
     (let st1 = st\<lparr>buflen := buflen st - namelen\<rparr>
      in if buflen st1 < 0 then (- ENAMETOOLONG, st1)
         else let st2 = st1\<lparr>buffer := buffer st1 - namelen\<rparr>
              in (0, st2\<lparr>mem := memcpy (mem st2) (buffer st2) str namelen\<rparr>))"

definition prepend_name :: "pbuf \<Rightarrow> qstr \<Rightarrow> int \<times> pbuf" where
  "prepend_name st nm = prepend st (name nm) (int (len nm))"

text \<open>
  The \<^verbatim>\<open>while (!IS_ROOT(dentry))\<close> loop. The second \<^verbatim>\<open>prepend\<close> runs only when the
  first returned 0, as \<^verbatim>\<open>||\<close> evaluates. \<^verbatim>\<open>prefetch\<close> is a hint and the spin lock
  around \<^verbatim>\<open>prepend_name\<close> has no effect on a single thread; neither is modelled. The loop
  ends on every dentry cache, also one whose parent links never reach a root: each
  iteration consumes at least the byte of the separator.
\<close>

function dentry_walk :: "dcache \<Rightarrow> pbuf \<Rightarrow> nat \<Rightarrow> int \<Rightarrow> char_ptr \<times> memory" where
  "dentry_walk dc st dentry retval =
     (if \<not> IS_ROOT dc dentry then
        (let parent = d_parent (dc dentry);
             r1 = prepend_name st (d_name (dc dentry))
         in if fst r1 \<noteq> 0 then (ERR_PTR (- ENAMETOOLONG), mem (snd r1))
            else let r2 = prepend (snd r1) (bytes_of [0x2F, 0]) 1
                 in if fst r2 \<noteq> 0 then (ERR_PTR (- ENAMETOOLONG), mem (snd r2))
                    else dentry_walk dc (snd r2) parent (buffer (snd r2)))
      else (Ptr retval, mem st))"
  by pat_completeness auto
termination
proof (relation "measure (\<lambda>(dc, st, dentry, retval). nat (buflen st))")
  show "wf (measure (\<lambda>(dc, st, dentry, retval). nat (buflen st)))" by simp
next
  fix dc :: dcache and st :: pbuf and dentry :: nat and retval :: int
    and x xa xb
  assume "x = d_parent (dc dentry)" and xa: "xa = prepend_name st (d_name (dc dentry))"
    and ok1: "\<not> fst xa \<noteq> 0" and xb: "xb = prepend (snd xa) (bytes_of [0x2F, 0]) 1"
    and ok2: "\<not> fst xb \<noteq> 0"
  from ok1 xa have b1: "buflen (snd xa) = buflen st - int (len (d_name (dc dentry)))"
    by (auto simp: prepend_name_def prepend_def Let_def ENAMETOOLONG_def split: if_splits)
  from ok2 xb have b2: "buflen (snd xb) = buflen (snd xa) - 1 \<and> 1 \<le> buflen (snd xa)"
    by (auto simp: prepend_def Let_def ENAMETOOLONG_def split: if_splits)
  from b1 b2 show "((dc, snd xb, x, buffer (snd xb)), dc, st, dentry, retval)
      \<in> measure (\<lambda>(dc, st, dentry, retval). nat (buflen st))"
    by simp
qed

declare dentry_walk.simps [simp del]

text \<open>
  \<^verbatim>\<open>smith_dentry_path(dentry, buf, buflen)\<close>: the value of the first \<^verbatim>\<open>prepend\<close> is
  ignored, the check \<^verbatim>\<open>buflen < 1\<close> follows it, then the provisional \<^verbatim>\<open>'/'\<close> is stored
  at \<^verbatim>\<open>end - 1\<close> without counting it. The result is the returned pointer together with
  the memory as the call leaves it.
\<close>

definition smith_dentry_path :: "dcache \<Rightarrow> memory \<Rightarrow> nat \<Rightarrow> int \<Rightarrow> int \<Rightarrow> char_ptr \<times> memory" where
  "smith_dentry_path dc m dentry buf buflen0 =
     (let st0 = \<lparr>mem = m, buffer = buf + buflen0, buflen = buflen0\<rparr>;
          st1 = snd (prepend st0 (bytes_of [0, 0]) 1)
      in if buflen st1 < 1 then (ERR_PTR (- ENAMETOOLONG), mem st1)
         else let retval = buffer st1 - 1;
                  st2 = st1\<lparr>mem := (mem st1)(retval := 0x2F)\<rparr>
              in dentry_walk dc st2 dentry retval)"

text \<open>
  A directory-entry chain: \<open>dentry_chain dc x xs\<close> holds when \<open>xs\<close> lists the nodes that
  are not the root, from the leaf \<open>x\<close> upwards, each one the parent of the one before,
  and the parent of the last is a root. Its depth is \<open>length xs\<close>, the total length of
  its names \<open>names_length dc xs\<close>, and its path the names in root-first order, each after
  a \<^verbatim>\<open>'/'\<close>; the path of the root alone is \<^verbatim>\<open>"/"\<close>.
\<close>

fun dentry_chain :: "dcache \<Rightarrow> nat \<Rightarrow> nat list \<Rightarrow> bool" where
  "dentry_chain dc x [] = IS_ROOT dc x"
| "dentry_chain dc x (y # ys) =
     (x = y \<and> \<not> IS_ROOT dc x \<and> dentry_chain dc (d_parent (dc x)) ys)"

definition name_bytes :: "qstr \<Rightarrow> byte list" where
  "name_bytes nm = map (name nm) [0..int (len nm) - 1]"

definition component :: "dcache \<Rightarrow> nat \<Rightarrow> byte list" where
  "component dc x = 0x2F # name_bytes (d_name (dc x))"

definition chain_path :: "dcache \<Rightarrow> nat list \<Rightarrow> byte list" where
  "chain_path dc xs = (if xs = [] then [0x2F] else concat (map (component dc) (rev xs)))"

definition names_length :: "dcache \<Rightarrow> nat list \<Rightarrow> nat" where
  "names_length dc xs = sum_list (map (\<lambda>x. len (d_name (dc x))) xs)"

definition need :: "dcache \<Rightarrow> nat list \<Rightarrow> int" where
  "need dc xs = int (names_length dc xs + length xs)"

section \<open>Symbol resolver, indirect strategy: get_kallsyms_func, smith_kallsyms_lookup_name\<close>

text \<open>
  \<^verbatim>\<open>unsigned long\<close> on the 64-bit kernels the driver is built for.
\<close>

type_synonym ulong = "64 word"

text \<open>
  The kernel around the resolver. \<open>register_kprobe env k\<close> is the outcome of the call of
  \<^verbatim>\<open>register_kprobe\<close> that \<open>k\<close> earlier calls precede: its return value and the address
  it leaves in \<^verbatim>\<open>probe.addr\<close>. \<open>call_addr env a symbol\<close> is what the code at address
  \<open>a\<close> returns when called with the symbol's name.
\<close>

record kernel_env =
  register_kprobe :: "nat \<Rightarrow> int \<times> ulong"
  call_addr :: "ulong \<Rightarrow> string \<Rightarrow> ulong"

text \<open>
  The state: the static function pointer \<^verbatim>\<open>kallsyms_lookup_name_sym\<close> (0 is the null
  pointer), and two counters that record how often \<^verbatim>\<open>register_kprobe\<close> and
  \<^verbatim>\<open>unregister_kprobe\<close> were called. Calls are taken one after the other.
\<close>

record resolver_state =
  kallsyms_lookup_name_sym :: ulong
  registrations :: nat
  unregistrations :: nat

definition get_kallsyms_func :: "kernel_env \<Rightarrow> resolver_state \<Rightarrow> ulong \<times> resolver_state" where
  "get_kallsyms_func env st =
     (let (ret, probe_addr) = register_kprobe env (registrations st);
          st1 = st\<lparr>registrations := registrations st + 1\<rparr>
      in if ret \<noteq> 0 then (0, st1)
         else (let addr = probe_addr;
                   st2 = st1\<lparr>unregistrations := unregistrations st1 + 1\<rparr>
               in (addr, st2)))"

definition smith_kallsyms_lookup_name ::
    "kernel_env \<Rightarrow> resolver_state \<Rightarrow> string \<Rightarrow> ulong \<times> resolver_state" where
  "smith_kallsyms_lookup_name env st symbol =
     (if kallsyms_lookup_name_sym st = 0 then
        (let (addr, st1) = get_kallsyms_func env st;
             st2 = st1\<lparr>kallsyms_lookup_name_sym := addr\<rparr>
         in if kallsyms_lookup_name_sym st2 = 0 then (0, st2)
            else (call_addr env (kallsyms_lookup_name_sym st2) symbol, st2))
      else (call_addr env (kallsyms_lookup_name_sym st) symbol, st))"

text \<open>A sequence of calls, each on the state the one before left, with their results.\<close>

fun lookup_all :: "kernel_env \<Rightarrow> resolver_state \<Rightarrow> string list \<Rightarrow> ulong list \<times> resolver_state" where
  "lookup_all env st [] = ([], st)"
| "lookup_all env st (symbol # symbols) =
     (let (r, st1) = smith_kallsyms_lookup_name env st symbol;
          (rs, st2) = lookup_all env st1 symbols
      in (r # rs, st2))"

section \<open>Volume-identity locator: smith_query_sb_uuid\<close>

text \<open>
  The build configuration: the version code of the kernel headers and the offsets that
  \<^verbatim>\<open>offsetof\<close> yields for the two fields of \<^verbatim>\<open>struct super_block\<close>. \<^verbatim>\<open>KERNEL_VERSION\<close> is
  the macro of the Linux headers. The memory is a parameter of the model, which the
  function never reads.
\<close>

record build_config =
  LINUX_VERSION_CODE :: nat
  offsetof_s_dev :: nat
  offsetof_s_uuid :: nat

definition KERNEL_VERSION :: "nat \<Rightarrow> nat \<Rightarrow> nat \<Rightarrow> nat" where
  "KERNEL_VERSION a b c = a * 65536 + b * 256 + c"

definition smith_query_sb_uuid :: "build_config \<Rightarrow> memory \<Rightarrow> int \<Rightarrow> int" where
  "smith_query_sb_uuid cfg m sb =
     (if LINUX_VERSION_CODE cfg < KERNEL_VERSION 2 6 39
      then sb + int (offsetof_s_dev cfg)
      else sb + int (offsetof_s_uuid cfg))"

section \<open>Concrete inputs\<close>

text \<open>
  A dentry cache with the root at address 0, \<^verbatim>\<open>usr\<close> at 2 below the root and \<^verbatim>\<open>bin\<close> at 3
  below \<^verbatim>\<open>usr\<close>; every other address is a root of its own. A memory filled with 0xAA.
\<close>

definition example_dcache :: dcache where
  "example_dcache x =
     (if x = 2 then \<lparr>d_parent = 0, d_name = \<lparr>len = 3, name = bytes_of [0x75, 0x73, 0x72]\<rparr>\<rparr>
      else if x = 3 then \<lparr>d_parent = 2, d_name = \<lparr>len = 3, name = bytes_of [0x62, 0x69, 0x6E]\<rparr>\<rparr>
      else \<lparr>d_parent = x, d_name = \<lparr>len = 1, name = bytes_of [0x2F]\<rparr>\<rparr>)"

definition example_memory :: memory where
  "example_memory a = 0xAA"

text \<open>
  A dentry cache whose only node below the root, at address 2, has the four-byte name
  61 00 2F 62, with a NUL inside.
\<close>

definition nul_name_dcache :: dcache where
  "nul_name_dcache x =
     (if x = 2 then \<lparr>d_parent = 0, d_name = \<lparr>len = 4, name = bytes_of [0x61, 0, 0x2F, 0x62]\<rparr>\<rparr>
      else \<lparr>d_parent = x, d_name = \<lparr>len = 1, name = bytes_of [0x2F]\<rparr>\<rparr>)"

text \<open>
  A kernel in which the first registration of the probe fails and every later one
  succeeds, and where the routine at the probed address knows one symbol; the resolver's
  state when the module is loaded; a build against the headers of Linux 5.4.
\<close>

definition example_env :: kernel_env where
  "example_env =
     \<lparr>register_kprobe = (\<lambda>k. if k = 0 then (- 2, 0) else (0, 0xFFFFFFFF81234560)),
      call_addr = (\<lambda>a symbol. if a = 0xFFFFFFFF81234560 \<and> symbol = ''sys_call_table''
                               then 0xFFFFFFFF82000100 else 0)\<rparr>"

definition resolver_init :: resolver_state where
  "resolver_init = \<lparr>kallsyms_lookup_name_sym = 0, registrations = 0, unregistrations = 0\<rparr>"

definition example_config :: build_config where
  "example_config =
     \<lparr>LINUX_VERSION_CODE = KERNEL_VERSION 5 4 0, offsetof_s_dev = 16, offsetof_s_uuid = 1176\<rparr>"

section \<open>Properties of the hasher\<close>


lemma mult_inv: "(0x5bd1e9955bd1e995 :: u64) * 0x542ed195e59b19bd = 1"
  by simp

lemma mult_inj: "(x :: u64) * 0x5bd1e9955bd1e995 = y * 0x5bd1e9955bd1e995 \<Longrightarrow> x = y"
proof -
  assume a: "x * 0x5bd1e9955bd1e995 = y * 0x5bd1e9955bd1e995"
  have "x = x * (0x5bd1e9955bd1e995 * 0x542ed195e59b19bd)" by (simp only: mult_inv mult_1_right)
  also have "\<dots> = (x * 0x5bd1e9955bd1e995) * 0x542ed195e59b19bd" by (simp only: mult.assoc)
  also have "\<dots> = (y * 0x5bd1e9955bd1e995) * 0x542ed195e59b19bd" by (simp only: a)
  also have "\<dots> = y * (0x5bd1e9955bd1e995 * 0x542ed195e59b19bd)" by (simp only: mult.assoc)
  also have "\<dots> = y" by (simp only: mult_inv mult_1_right)
  finally show ?thesis .
qed

lemma xorshift_invol: "(x XOR drop_bit 47 x) XOR drop_bit 47 (x XOR drop_bit 47 x) = (x :: u64)"
  by (rule bit_word_eqI) (auto simp: bit_simps)

lemma xorshift_inj: "(x :: u64) XOR drop_bit 47 x = y XOR drop_bit 47 y \<Longrightarrow> x = y"
  by (metis xorshift_invol)

lemma char_to_u64_inj: "char_to_u64 cs a = char_to_u64 cs b \<Longrightarrow> a = b"
proof (cases cs)
  case True
  assume "char_to_u64 cs a = char_to_u64 cs b"
  with True have "(scast a :: u64) = scast b" by (simp add: char_to_u64_def)
  then have "(scast (scast a :: u64) :: byte) = scast (scast b :: u64)" by simp
  then show ?thesis by (simp add: scast_up_scast_id is_up)
next
  case False
  assume "char_to_u64 cs a = char_to_u64 cs b"
  with False have "(ucast a :: u64) = ucast b" by (simp add: char_to_u64_def)
  then have "(ucast (ucast a :: u64) :: byte) = ucast (ucast b :: u64)" by simp
  then show ?thesis by (simp add: ucast_up_ucast_id is_up)
qed

lemma xor_cancel_left: "(h :: u64) XOR a = h XOR b \<Longrightarrow> a = b"
proof -
  assume "h XOR a = h XOR b"
  then have "h XOR (h XOR a) = h XOR (h XOR b)" by simp
  then show ?thesis by (simp only: bit.xor_left_self)
qed

lemma xor_cancel_right: "(h :: u64) XOR a = h' XOR a \<Longrightarrow> h = h'"
  using xor_cancel_left [of a h h'] by (simp add: xor.commute)

lemma hash_round_inj_byte: "hash_round cs h a = hash_round cs h b \<Longrightarrow> a = b"
  unfolding hash_round_def Let_def
  by (auto dest!: xorshift_inj mult_inj xor_cancel_left char_to_u64_inj)

lemma hash_round_inj_acc: "hash_round cs h a = hash_round cs h' a \<Longrightarrow> h = h'"
  unfolding hash_round_def Let_def
  by (auto dest!: xorshift_inj mult_inj xor_cancel_right)

lemma foldl_hash_round_inj:
  "foldl (hash_round cs) h bs = foldl (hash_round cs) h' bs \<Longrightarrow> h = h'"
  by (induction bs arbitrary: h h') (auto dest: hash_round_inj_acc)

lemma hash_loop_foldl:
  "hash_loop cs s n i h = foldl (hash_round cs) h (map s [i..n - 1])"
proof (induction cs s n i h rule: hash_loop.induct)
  case (1 cs s n i h)
  show ?case
  proof (cases "i < n")
    case True
    then have "[i..n - 1] = i # [i + 1..n - 1]" by (simp add: upto_rec1)
    with True 1 show ?thesis by (simp add: hash_loop.simps [of cs s n i h])
  next
    case False
    then show ?thesis by (simp add: hash_loop.simps [of cs s n i h])
  qed
qed

lemma scast_small: "b < 0x80 \<Longrightarrow> (scast (b :: byte) :: u64) = ucast b"
proof -
  assume "b < 0x80"
  then have "uint b < 128" by (simp add: word_less_def)
  moreover have "- 128 \<le> uint b"
  proof -
    have "0 \<le> uint b" by simp
    then show ?thesis by linarith
  qed
  ultimately have "signed_take_bit 7 (uint b) = uint b"
    by (intro signed_take_bit_int_eq_self) simp_all
  then have "sint b = uint b"
    by (simp add: sint_uint)
  then show ?thesis by (simp only: scast_eq [of b] ucast_eq [of b])
qed

lemma hash_round_spec:
  "\<not> cs \<or> b < 0x80 \<Longrightarrow> hash_round cs h b = spec_round h b"
  by (auto simp: hash_round_def spec_round_def char_to_u64_def scast_small)

lemma foldl_hash_round_spec:
  "\<not> cs \<or> (\<forall>b \<in> set bs. b < 0x80) \<Longrightarrow>
     foldl (hash_round cs) h bs = foldl spec_round h bs"
  by (induction bs arbitrary: h) (auto simp: hash_round_spec)

lemma hash_differs:
  assumes "0 \<le> i" "i < n" "s i \<noteq> s' i"
    and same: "\<forall>j. 0 \<le> j \<and> j < n \<and> j \<noteq> i \<longrightarrow> s' j = s j"
  shows "hash_murmur_OAAT64 cs s n \<noteq> hash_murmur_OAAT64 cs s' n"
proof
  assume eq: "hash_murmur_OAAT64 cs s n = hash_murmur_OAAT64 cs s' n"
  have split: "[0..n - 1] = [0..i - 1] @ i # [i + 1..n - 1]"
    using assms by (intro upto_split3) auto
  have pre: "map s' [0..i - 1] = map s [0..i - 1]"
    using assms by (intro map_cong) auto
  have post: "map s' [i + 1..n - 1] = map s [i + 1..n - 1]"
    using assms by (intro map_cong) auto
  let ?h = "foldl (hash_round cs) 525201411107845655 (map s [0..i - 1])"
  from eq have "foldl (hash_round cs) (hash_round cs ?h (s i)) (map s [i + 1..n - 1]) =
      foldl (hash_round cs) (hash_round cs ?h (s' i)) (map s [i + 1..n - 1])"
    by (simp add: hash_murmur_OAAT64_def hash_loop_foldl split pre post)
  then have "hash_round cs ?h (s i) = hash_round cs ?h (s' i)"
    by (rule foldl_hash_round_inj)
  then have "s i = s' i" by (rule hash_round_inj_byte)
  with assms show False by simp
qed

lemma hash_loop_done: "n \<le> i \<Longrightarrow> hash_loop cs s n i h = h"
  by (simp add: hash_loop.simps)

text \<open>
  C10. For every pointer and every length \<open>n \<le> 0\<close>, negative lengths included, the
  hasher returns the seed 525201411107845655, whatever the memory behind the pointer
  holds: no byte is read.
\<close>

theorem hash_nonpositive_length:
  "n \<le> 0 \<Longrightarrow>
     hash_murmur_OAAT64 char_signed s n = 525201411107845655 \<and>
     hash_murmur_OAAT64 char_signed s n = hash_murmur_OAAT64 char_signed s' n"
  by (simp add: hash_murmur_OAAT64_def hash_loop_done)

theorem hash_nonpositive_length_witness:
  "(-3::int) \<le> 0 \<and>
   hash_murmur_OAAT64 True (bytes_of [65, 66]) (-3) = 525201411107845655 \<and>
   hash_murmur_OAAT64 True (bytes_of [65, 66]) (-3) = hash_murmur_OAAT64 True (bytes_of [200]) (-3)"
proof -
  have neg: "(-3::int) \<le> 0" by simp
  from hash_nonpositive_length [OF neg, of True "bytes_of [65, 66]" "bytes_of [200]"] neg
  show ?thesis by blast
qed

text \<open>
  C4. Two inputs of the same length that differ in exactly one byte, at a position \<open>i\<close>
  within the length, never have the same hash: each round is injective in the byte for a
  fixed accumulator and injective in the accumulator for a fixed byte.
\<close>

theorem hash_single_byte_change:
  "0 \<le> i \<Longrightarrow> i < n \<Longrightarrow> s i \<noteq> s' i \<Longrightarrow>
   (\<forall>j. 0 \<le> j \<and> j < n \<and> j \<noteq> i \<longrightarrow> s' j = s j) \<Longrightarrow>
     hash_murmur_OAAT64 char_signed s n \<noteq> hash_murmur_OAAT64 char_signed s' n"
  by (rule hash_differs)

theorem hash_single_byte_change_witness:
  "hash_murmur_OAAT64 True (bytes_of [47, 97, 98]) 3 \<noteq>
   hash_murmur_OAAT64 True (bytes_of [47, 225, 98]) 3"
proof -
  have "(0::int) \<le> 1" "(1::int) < 3" by simp_all
  moreover have "bytes_of [47, 97, 98] 1 \<noteq> bytes_of [47, 225, 98] 1"
    by (simp add: bytes_of_def)
  moreover have "\<forall>j. 0 \<le> j \<and> j < 3 \<and> j \<noteq> 1 \<longrightarrow>
      bytes_of [47, 225, 98] j = bytes_of [47, 97, 98] j"
    by (auto simp: bytes_of_def nth_Cons split: nat.splits)
  ultimately show ?thesis by (rule hash_single_byte_change)
qed

text \<open>
  C2, as the specification states it, fails where plain \<^verbatim>\<open>char\<close> is signed: the byte
  0x80 is sign-extended by \<^verbatim>\<open>(uint64_t)(s[i])\<close>, so the round XORs
  0xFFFFFFFFFFFFFF80 into the accumulator, not 0x80.
\<close>

theorem hash_signed_char_counterexample:
  "hash_murmur_OAAT64 True (bytes_of [0x80]) 1 = 7070579083025958876 \<and>
   spec_hash (map (bytes_of [0x80]) [0..1 - 1]) = 2132518880678432723 \<and>
   hash_murmur_OAAT64 True (bytes_of [0x80]) 1 \<noteq> spec_hash (map (bytes_of [0x80]) [0..1 - 1])"
  by (simp add: hash_murmur_OAAT64_def hash_loop.simps hash_round_def char_to_u64_def
      spec_hash_def spec_round_def bytes_of_def)

text \<open>
  C2, amended. For every memory \<open>s\<close> and length \<open>n \<ge> 0\<close> the hasher returns the fold,
  from the seed, over the first \<open>n\<close> bytes of \<open>s\<close> in order, of the round that XORs the
  byte converted from \<^verbatim>\<open>char\<close> to 64 bits (sign-extended where \<^verbatim>\<open>char\<close> is signed,
  zero-extended where it is unsigned), multiplies by 0x5bd1e9955bd1e995 and XORs the
  accumulator with itself shifted right by 47 bits, in wrapping 64-bit arithmetic. It
  depends on no byte beyond the first \<open>n\<close>, returns the seed for \<open>n = 0\<close>, and agrees with
  the hasher of the specification where \<^verbatim>\<open>char\<close> is unsigned or every byte read is below
  0x80.
\<close>

theorem hash_fold_of_chars:
  "0 \<le> n \<Longrightarrow>
     hash_murmur_OAAT64 char_signed s n =
       foldl (\<lambda>acc c.
                let acc1 = acc XOR (if char_signed then scast c else ucast c);
                    acc2 = acc1 * 0x5bd1e9955bd1e995
                in acc2 XOR drop_bit 47 acc2)
         525201411107845655 (map s [0..n - 1]) \<and>
     ((\<forall>i. 0 \<le> i \<and> i < n \<longrightarrow> s' i = s i) \<longrightarrow>
        hash_murmur_OAAT64 char_signed s' n = hash_murmur_OAAT64 char_signed s n) \<and>
     (n = 0 \<longrightarrow> hash_murmur_OAAT64 char_signed s n = 525201411107845655) \<and>
     (\<not> char_signed \<or> (\<forall>i. 0 \<le> i \<and> i < n \<longrightarrow> s i < 0x80) \<longrightarrow>
        hash_murmur_OAAT64 char_signed s n = spec_hash (map s [0..n - 1]))"
proof (intro conjI impI)
  have round: "hash_round char_signed =
      (\<lambda>acc c.
         let acc1 = acc XOR (if char_signed then scast c else ucast c);
             acc2 = acc1 * 0x5bd1e9955bd1e995
         in acc2 XOR drop_bit 47 acc2)"
    by (intro ext) (simp add: hash_round_def char_to_u64_def)
  show "hash_murmur_OAAT64 char_signed s n =
       foldl (\<lambda>acc c.
                let acc1 = acc XOR (if char_signed then scast c else ucast c);
                    acc2 = acc1 * 0x5bd1e9955bd1e995
                in acc2 XOR drop_bit 47 acc2)
         525201411107845655 (map s [0..n - 1])"
    by (simp only: hash_murmur_OAAT64_def hash_loop_foldl round)
next
  assume "\<forall>i. 0 \<le> i \<and> i < n \<longrightarrow> s' i = s i"
  then have "map s' [0..n - 1] = map s [0..n - 1]"
    by (intro map_cong) auto
  then show "hash_murmur_OAAT64 char_signed s' n = hash_murmur_OAAT64 char_signed s n"
    by (simp only: hash_murmur_OAAT64_def hash_loop_foldl)
next
  assume "n = 0"
  then show "hash_murmur_OAAT64 char_signed s n = 525201411107845655"
    by (simp add: hash_murmur_OAAT64_def hash_loop_done)
next
  assume "\<not> char_signed \<or> (\<forall>i. 0 \<le> i \<and> i < n \<longrightarrow> s i < 0x80)"
  then have "\<not> char_signed \<or> (\<forall>b \<in> set (map s [0..n - 1]). b < 0x80)"
    by auto
  then show "hash_murmur_OAAT64 char_signed s n = spec_hash (map s [0..n - 1])"
    by (simp only: hash_murmur_OAAT64_def hash_loop_foldl spec_hash_def
        foldl_hash_round_spec)
qed

theorem hash_fold_of_chars_witness:
  "hash_murmur_OAAT64 True (bytes_of [47, 97]) 2 = spec_hash (map (bytes_of [47, 97]) [0..2 - 1]) \<and>
   hash_murmur_OAAT64 True (bytes_of [47, 97, 98]) 2 = hash_murmur_OAAT64 True (bytes_of [47, 97]) 2 \<and>
   hash_murmur_OAAT64 True (bytes_of [47, 97]) 2 = 1580574992888401426"
proof -
  have n: "(0::int) \<le> 2" by simp
  have same: "\<forall>i. 0 \<le> i \<and> i < 2 \<longrightarrow> bytes_of [47, 97, 98] i = bytes_of [47, 97] i"
    by (auto simp: bytes_of_def nth_Cons split: nat.splits)
  have small: "\<not> True \<or> (\<forall>i. 0 \<le> i \<and> i < 2 \<longrightarrow> bytes_of [47, 97] i < 0x80)"
    by (auto simp: bytes_of_def nth_Cons split: nat.splits)
  have val: "hash_murmur_OAAT64 True (bytes_of [47, 97]) 2 = 1580574992888401426"
    by (simp add: hash_murmur_OAAT64_def hash_loop.simps hash_round_def char_to_u64_def
        bytes_of_def)
  from hash_fold_of_chars [OF n, of True "bytes_of [47, 97]" "bytes_of [47, 97, 98]"]
    same small val
  show ?thesis by blast
qed

section \<open>Properties of the path reconstructor\<close>

lemma memcpy_inside: "dest \<le> a \<Longrightarrow> a < dest + n \<Longrightarrow> memcpy m dest src n a = src (a - dest)"
  by (simp add: memcpy_def)

lemma memcpy_outside: "a < dest \<or> dest + n \<le> a \<Longrightarrow> memcpy m dest src n a = m a"
  by (auto simp: memcpy_def)

lemma memcpy_one: "memcpy m dest (bytes_of (c # cs)) 1 = m(dest := c)"
  by (rule ext) (auto simp: memcpy_def bytes_of_def)

lemma map_memcpy: "map (memcpy m dest src n) [dest..dest + n - 1] = map src [0..n - 1]"
  by (rule nth_equalityI) (auto simp: memcpy_def)

lemma prepend_success:
  "n \<le> buflen st \<Longrightarrow>
     prepend st str n =
       (0, st\<lparr>mem := memcpy (mem st) (buffer st - n) str n,
              buffer := buffer st - n, buflen := buflen st - n\<rparr>)"
  by (simp add: prepend_def Let_def)

lemma prepend_failure:
  "buflen st < n \<Longrightarrow> prepend st str n = (- ENAMETOOLONG, st\<lparr>buflen := buflen st - n\<rparr>)"
  by (simp add: prepend_def Let_def)

lemma walk_root: "IS_ROOT dc d \<Longrightarrow> dentry_walk dc st d rv = (Ptr rv, mem st)"
  by (simp add: dentry_walk.simps)

lemma walk_step:
  assumes "\<not> IS_ROOT dc d" and "int (len (d_name (dc d))) + 1 \<le> buflen st"
  shows "dentry_walk dc st d rv =
     dentry_walk dc
       (st\<lparr>mem := (memcpy (mem st) (buffer st - int (len (d_name (dc d))))
                    (name (d_name (dc d))) (int (len (d_name (dc d)))))
                  (buffer st - int (len (d_name (dc d))) - 1 := 0x2F),
           buffer := buffer st - int (len (d_name (dc d))) - 1,
           buflen := buflen st - int (len (d_name (dc d))) - 1\<rparr>)
       (d_parent (dc d)) (buffer st - int (len (d_name (dc d))) - 1)"
  using assms
  by (subst dentry_walk.simps)
     (simp add: Let_def prepend_name_def prepend_success memcpy_one)

lemma walk_too_long:
  assumes "\<not> IS_ROOT dc d" and "buflen st < int (len (d_name (dc d))) + 1"
  shows "fst (dentry_walk dc st d rv) = ERR_PTR (- ENAMETOOLONG)"
proof (cases "buflen st < int (len (d_name (dc d)))")
  case True
  with assms show ?thesis
    by (subst dentry_walk.simps)
       (simp add: Let_def prepend_name_def prepend_failure ENAMETOOLONG_def)
next
  case False
  with assms show ?thesis
    by (subst dentry_walk.simps)
       (simp add: Let_def prepend_name_def prepend_success prepend_failure ENAMETOOLONG_def)
qed


lemma need_Nil [simp]: "need dc [] = 0"
  by (simp add: need_def names_length_def)

lemma need_Cons: "need dc (x # xs) = int (len (d_name (dc x))) + 1 + need dc xs"
  by (simp add: need_def names_length_def)

lemma need_nonneg: "0 \<le> need dc xs"
  by (simp add: need_def)

lemma length_component: "int (length (component dc x)) = int (len (d_name (dc x))) + 1"
  by (simp add: component_def name_bytes_def)

lemma walk_fails:
  "dentry_chain dc d xs \<Longrightarrow> 0 \<le> buflen st \<Longrightarrow> buflen st < need dc xs \<Longrightarrow>
     fst (dentry_walk dc st d rv) = ERR_PTR (- ENAMETOOLONG)"
proof (induction xs arbitrary: st d rv)
  case Nil
  then show ?case by simp
next
  case (Cons x xs)
  let ?n = "int (len (d_name (dc d)))"
  from Cons.prems have dx: "d = x" and nr: "\<not> IS_ROOT dc d"
    and ch: "dentry_chain dc (d_parent (dc d)) xs" by auto
  show ?case
  proof (cases "buflen st < ?n + 1")
    case True
    with nr show ?thesis by (rule walk_too_long)
  next
    case False
    then have fit: "?n + 1 \<le> buflen st" by simp
    from Cons.prems dx have "buflen st - ?n - 1 < need dc xs"
      by (simp add: need_Cons)
    with fit ch show ?thesis
      by (subst walk_step [OF nr fit]) (rule Cons.IH, simp_all)
  qed
qed

lemma walk_succeeds:
  "dentry_chain dc d xs \<Longrightarrow> need dc xs \<le> buflen st \<Longrightarrow>
     fst (dentry_walk dc st d rv) = Ptr (if xs = [] then rv else buffer st - need dc xs) \<and>
     map (snd (dentry_walk dc st d rv)) [buffer st - need dc xs..buffer st - 1] =
       concat (map (component dc) (rev xs)) \<and>
     (\<forall>a. a < buffer st - need dc xs \<or> buffer st \<le> a \<longrightarrow>
          snd (dentry_walk dc st d rv) a = mem st a)"
proof (induction xs arbitrary: st d rv)
  case Nil
  then show ?case by (simp add: walk_root)
next
  case (Cons x xs)
  define n where "n = int (len (d_name (dc d)))"
  define e where "e = buffer st"
  define k where "k = need dc xs"
  define m1 where "m1 = (memcpy (mem st) (e - n) (name (d_name (dc d))) n)(e - n - 1 := 0x2F)"
  define st2 where "st2 = st\<lparr>mem := m1, buffer := e - n - 1, buflen := buflen st - n - 1\<rparr>"
  define r where "r = dentry_walk dc st2 (d_parent (dc d)) (e - n - 1)"
  have st2: "mem st2 = m1" "buffer st2 = e - n - 1" "buflen st2 = buflen st - n - 1"
    by (simp_all add: st2_def)
  from Cons.prems have dx: "d = x" and nr: "\<not> IS_ROOT dc d"
    and ch: "dentry_chain dc (d_parent (dc d)) xs" by auto
  have k0: "0 \<le> k" and n0: "0 \<le> n"
    by (simp_all add: k_def n_def need_nonneg)
  have nd: "need dc (x # xs) = n + 1 + k"
    using dx by (simp add: need_Cons n_def k_def)
  from Cons.prems have fit: "n + 1 \<le> buflen st" and rest: "need dc xs \<le> buflen st2"
    using k0 by (simp_all add: nd st2 k_def [symmetric])
  have step: "dentry_walk dc st d rv = r"
    unfolding r_def st2_def m1_def e_def n_def
    by (rule walk_step [OF nr fit [unfolded n_def]])
  have IH: "fst r = Ptr (if xs = [] then e - n - 1 else e - n - 1 - k) \<and>
      map (snd r) [e - n - 1 - k..e - n - 1 - 1] = concat (map (component dc) (rev xs)) \<and>
      (\<forall>a. a < e - n - 1 - k \<or> e - n - 1 \<le> a \<longrightarrow> snd r a = m1 a)"
    using Cons.IH [OF ch rest, of "e - n - 1"]
    unfolding st2 r_def [symmetric] k_def [symmetric] by blast
  have lo: "e - (n + 1 + k) = e - n - 1 - k" by simp
  have ptr: "fst r = Ptr (e - (n + 1 + k))"
  proof (cases "xs = []")
    case True
    then have "k = 0" by (simp add: k_def)
    with IH True show ?thesis by simp
  next
    case False
    with IH have "fst r = Ptr (e - n - 1 - k)" by simp
    then show ?thesis by (simp only: lo)
  qed
  have low: "map (snd r) [e - (n + 1 + k)..e - n - 2] = concat (map (component dc) (rev xs))"
  proof -
    have "[e - (n + 1 + k)..e - n - 2] = [e - n - 1 - k..e - n - 1 - 1]"
      by (simp add: algebra_simps)
    with IH show ?thesis by (simp only:)
  qed
  have frame: "snd r a = m1 a" if "a < e - n - 1 - k \<or> e - n - 1 \<le> a" for a
    using IH that by blast
  have sep: "snd r (e - n - 1) = 0x2F"
    by (subst frame) (simp_all add: m1_def)
  have "map (snd r) [e - n..e - 1] = map m1 [e - n..e - 1]"
    by (intro map_cong refl frame) simp
  also have "\<dots> = map (memcpy (mem st) (e - n) (name (d_name (dc d))) n) [e - n..e - 1]"
    by (intro map_cong refl) (simp add: m1_def)
  also have "\<dots> = name_bytes (d_name (dc d))"
    using map_memcpy [of "mem st" "e - n" "name (d_name (dc d))" n]
    by (simp add: name_bytes_def n_def)
  finally have nm: "map (snd r) [e - n..e - 1] = name_bytes (d_name (dc d))" .
  have split: "[e - (n + 1 + k)..e - 1] =
      [e - (n + 1 + k)..e - n - 2] @ (e - n - 1) # [e - n..e - 1]"
    using upto_split3 [of "e - (n + 1 + k)" "e - n - 1" "e - 1"] k0 n0
    by (simp add: algebra_simps)
  have bytes: "map (snd r) [e - (n + 1 + k)..e - 1] =
      concat (map (component dc) (rev (x # xs)))"
    by (simp only: split map_append list.map low sep nm)
       (simp add: component_def dx)
  have outside: "\<forall>a. a < e - (n + 1 + k) \<or> e \<le> a \<longrightarrow> snd r a = mem st a"
  proof (intro allI impI)
    fix a assume a: "a < e - (n + 1 + k) \<or> e \<le> a"
    with k0 n0 have far: "a < e - n - 1 \<or> e \<le> a" by auto
    from a n0 have "snd r a = m1 a"
      by (intro frame) auto
    also from far n0 have "\<dots> = mem st a" by (auto simp: m1_def memcpy_def)
    finally show "snd r a = mem st a" .
  qed
  from ptr bytes outside show ?case
    by (simp only: step nd e_def [symmetric]) simp
qed


lemma walk_frame:
  "0 \<le> buflen st \<Longrightarrow> a < buffer st - buflen st \<or> buffer st \<le> a \<Longrightarrow>
     snd (dentry_walk dc st d rv) a = mem st a"
proof (induction "nat (buflen st)" arbitrary: st d rv rule: less_induct)
  case less
  define n where "n = int (len (d_name (dc d)))"
  have n0: "0 \<le> n" by (simp add: n_def)
  show ?case
  proof (cases "IS_ROOT dc d")
    case True
    then show ?thesis by (simp add: walk_root)
  next
    case nr: False
    show ?thesis
    proof (cases "n + 1 \<le> buflen st")
      case True
      define st2 where "st2 = st\<lparr>mem := (memcpy (mem st) (buffer st - n) (name (d_name (dc d))) n)
                  (buffer st - n - 1 := 0x2F),
           buffer := buffer st - n - 1, buflen := buflen st - n - 1\<rparr>"
      have step: "dentry_walk dc st d rv = dentry_walk dc st2 (d_parent (dc d)) (buffer st - n - 1)"
        unfolding st2_def n_def by (rule walk_step [OF nr True [unfolded n_def]])
      have "snd (dentry_walk dc st2 (d_parent (dc d)) (buffer st - n - 1)) a = mem st2 a"
        using less.prems True n0 by (intro less.hyps) (auto simp: st2_def)
      also have "\<dots> = mem st a"
        using less.prems True n0 by (auto simp: st2_def memcpy_def)
      finally show ?thesis by (simp only: step)
    next
      case False
      show ?thesis
      proof (cases "n \<le> buflen st")
        case True
        with False nr less.prems n0 show ?thesis
          by (subst dentry_walk.simps)
             (auto simp: Let_def prepend_name_def prepend_success prepend_failure
                ENAMETOOLONG_def memcpy_def n_def)
      next
        case False
        with nr show ?thesis
          by (subst dentry_walk.simps)
             (simp add: Let_def prepend_name_def prepend_failure ENAMETOOLONG_def n_def)
      qed
    qed
  qed
qed

lemma walk_ptr_range:
  "0 \<le> buflen st \<Longrightarrow> fst (dentry_walk dc st d rv) = Ptr p \<Longrightarrow>
     p = rv \<or> (buffer st - buflen st \<le> p \<and> p < buffer st)"
proof (induction "nat (buflen st)" arbitrary: st d rv rule: less_induct)
  case less
  define n where "n = int (len (d_name (dc d)))"
  have n0: "0 \<le> n" by (simp add: n_def)
  show ?case
  proof (cases "IS_ROOT dc d")
    case True
    with less.prems show ?thesis by (simp add: walk_root)
  next
    case nr: False
    show ?thesis
    proof (cases "n + 1 \<le> buflen st")
      case True
      define st2 where "st2 = st\<lparr>mem := (memcpy (mem st) (buffer st - n) (name (d_name (dc d))) n)
                  (buffer st - n - 1 := 0x2F),
           buffer := buffer st - n - 1, buflen := buflen st - n - 1\<rparr>"
      have step: "dentry_walk dc st d rv = dentry_walk dc st2 (d_parent (dc d)) (buffer st - n - 1)"
        unfolding st2_def n_def by (rule walk_step [OF nr True [unfolded n_def]])
      have "p = buffer st - n - 1 \<or> (buffer st2 - buflen st2 \<le> p \<and> p < buffer st2)"
        using less.prems True n0 by (intro less.hyps) (auto simp: st2_def step)
      with True n0 show ?thesis by (auto simp: st2_def)
    next
      case False
      with nr less.prems have "fst (dentry_walk dc st d rv) = ERR_PTR (- ENAMETOOLONG)"
        by (intro walk_too_long) (simp_all add: n_def)
      with less.prems show ?thesis by simp
    qed
  qed
qed


lemma sdp_small:
  "cap < 2 \<Longrightarrow>
     smith_dentry_path dc m d buf cap =
       (ERR_PTR (- ENAMETOOLONG), if 1 \<le> cap then m(buf + cap - 1 := 0) else m)"
  by (cases "1 \<le> cap")
     (simp_all add: smith_dentry_path_def Let_def prepend_success prepend_failure memcpy_one)

lemma sdp_unfold:
  "2 \<le> cap \<Longrightarrow>
     smith_dentry_path dc m d buf cap =
       dentry_walk dc
         \<lparr>mem = m(buf + cap - 1 := 0, buf + cap - 2 := 0x2F),
          buffer = buf + cap - 1, buflen = cap - 1\<rparr> d (buf + cap - 2)"
  by (simp add: smith_dentry_path_def Let_def prepend_success memcpy_one)

lemma length_components:
  "int (length (concat (map (component dc) ys))) = int (names_length dc ys) + int (length ys)"
  by (induction ys) (simp_all add: names_length_def component_def name_bytes_def)

lemma names_length_rev: "names_length dc (rev xs) = names_length dc xs"
  by (simp add: names_length_def rev_map [symmetric])

lemma length_chain_path:
  "int (length (chain_path dc xs)) =
     (if xs = [] then 1 else int (names_length dc xs) + int (length xs))"
  by (simp add: chain_path_def length_components names_length_rev)

lemma sdp_fails:
  assumes "dentry_chain dc d xs" and "cap < max 2 (int (names_length dc xs) + int (length xs) + 1)"
  shows "fst (smith_dentry_path dc m d buf cap) = ERR_PTR (- ENAMETOOLONG)"
proof (cases "cap < 2")
  case True
  then show ?thesis by (simp add: sdp_small)
next
  case False
  with assms have "cap - 1 < need dc xs" by (simp add: need_def)
  with assms False show ?thesis
    by (simp add: sdp_unfold walk_fails)
qed

lemma sdp_succeeds:
  assumes ch: "dentry_chain dc d xs"
    and cap: "max 2 (int (names_length dc xs) + int (length xs) + 1) \<le> cap"
  shows "fst (smith_dentry_path dc m d buf cap) =
           Ptr (buf + cap - 1 - int (length (chain_path dc xs)))"
    and "map (snd (smith_dentry_path dc m d buf cap))
           [buf + cap - 1 - int (length (chain_path dc xs))..buf + cap - 2] = chain_path dc xs"
    and "snd (smith_dentry_path dc m d buf cap) (buf + cap - 1) = 0"
    and "\<forall>a. a < buf \<or> buf + cap \<le> a \<longrightarrow> snd (smith_dentry_path dc m d buf cap) a = m a"
proof -
  define st where "st = \<lparr>mem = m(buf + cap - 1 := 0, buf + cap - 2 := 0x2F),
          buffer = buf + cap - 1, buflen = cap - 1\<rparr>"
  define r where "r = dentry_walk dc st d (buf + cap - 2)"
  define k where "k = need dc xs"
  have st: "mem st = m(buf + cap - 1 := 0, buf + cap - 2 := 0x2F)" "buffer st = buf + cap - 1"
    "buflen st = cap - 1"
    by (simp_all add: st_def)
  from cap have c2: "2 \<le> cap" and fit: "need dc xs \<le> buflen st"
    by (simp_all add: need_def st)
  have k0: "0 \<le> k" by (simp add: k_def need_nonneg)
  from fit have kc: "k \<le> cap - 1" by (simp add: k_def st)
  have unf: "smith_dentry_path dc m d buf cap = r"
    unfolding r_def st_def by (rule sdp_unfold [OF c2])
  have W: "fst r = Ptr (if xs = [] then buf + cap - 2 else buf + cap - 1 - k) \<and>
      map (snd r) [buf + cap - 1 - k..buf + cap - 1 - 1] = concat (map (component dc) (rev xs)) \<and>
      (\<forall>a. a < buf + cap - 1 - k \<or> buf + cap - 1 \<le> a \<longrightarrow> snd r a = mem st a)"
    using walk_succeeds [OF ch fit, of "buf + cap - 2"]
    unfolding st(2) r_def [symmetric] k_def [symmetric] by blast
  have len: "int (length (chain_path dc xs)) = (if xs = [] then 1 else k)"
    by (simp add: length_chain_path k_def need_def)
  have kz: "xs = [] \<Longrightarrow> k = 0" by (simp add: k_def)
  have t1: "buf + cap - 1 - 1 = buf + cap - 2" by simp
  show "fst (smith_dentry_path dc m d buf cap) =
           Ptr (buf + cap - 1 - int (length (chain_path dc xs)))"
    using W by (simp add: unf len)
  show "snd (smith_dentry_path dc m d buf cap) (buf + cap - 1) = 0"
    using W by (simp add: unf st)
  show "\<forall>a. a < buf \<or> buf + cap \<le> a \<longrightarrow> snd (smith_dentry_path dc m d buf cap) a = m a"
  proof (intro allI impI)
    fix a assume "a < buf \<or> buf + cap \<le> a"
    with kc k0 have far: "a < buf + cap - 1 - k \<or> buf + cap - 1 \<le> a" and
      ne: "a \<noteq> buf + cap - 1" "a \<noteq> buf + cap - 2" using c2 by auto
    from W far have "snd r a = mem st a" by blast
    with ne show "snd (smith_dentry_path dc m d buf cap) a = m a"
      by (simp add: unf st)
  qed
  show "map (snd (smith_dentry_path dc m d buf cap))
           [buf + cap - 1 - int (length (chain_path dc xs))..buf + cap - 2] = chain_path dc xs"
  proof (cases "xs = []")
    case True
    from W have "snd r (buf + cap - 2) = mem st (buf + cap - 2)"
      using kz [OF True] by simp
    then have "snd r (buf + cap - 2) = 0x2F" by (simp add: st)
    moreover have "[buf + cap - 1 - 1..buf + cap - 2] = [buf + cap - 2]" by (simp add: t1)
    ultimately show ?thesis using True
      by (simp add: unf len chain_path_def)
  next
    case False
    with len have l: "int (length (chain_path dc xs)) = k" by simp
    from W have "map (snd r) [buf + cap - 1 - k..buf + cap - 2] =
        concat (map (component dc) (rev xs))"
      by (simp add: t1)
    with False show ?thesis
      by (simp only: unf l) (simp add: chain_path_def)
  qed
qed

lemma sdp_nul:
  assumes "1 \<le> cap"
  shows "snd (smith_dentry_path dc m d buf cap) (buf + cap - 1) = 0"
proof (cases "cap < 2")
  case True
  with assms show ?thesis by (simp add: sdp_small)
next
  case False
  then show ?thesis
    by (simp add: sdp_unfold walk_frame)
qed

lemma sdp_ptr_range:
  assumes "fst (smith_dentry_path dc m d buf cap) = Ptr p"
  shows "2 \<le> cap \<and> buf \<le> p \<and> p \<le> buf + cap - 2"
proof (cases "cap < 2")
  case True
  with assms show ?thesis by (simp add: sdp_small)
next
  case False
  then have c2: "2 \<le> cap" by simp
  let ?st = "\<lparr>mem = m(buf + cap - 1 := 0, buf + cap - 2 := 0x2F),
          buffer = buf + cap - 1, buflen = cap - 1\<rparr>"
  from assms have "fst (dentry_walk dc ?st d (buf + cap - 2)) = Ptr p"
    by (simp add: sdp_unfold [OF c2])
  then have "p = buf + cap - 2 \<or> (buffer ?st - buflen ?st \<le> p \<and> p < buffer ?st)"
    using c2 by (intro walk_ptr_range) simp_all
  with c2 show ?thesis by auto
qed

text \<open>
  C1, amended. For every directory-entry chain of depth \<open>d = length xs\<close> whose names
  have total length \<open>L = names_length dc xs\<close>, a call with a buffer of capacity at least
  \<open>L + d + 1\<close> and at least 2 succeeds: it returns the pointer to the path
  \<^verbatim>\<open>/name1/.../nameD\<close> (names root-first; \<^verbatim>\<open>/\<close> alone for the root), which ends right
  before the last byte of the buffer, and that byte is NUL. With capacity exactly
  \<open>L + d\<close> it returns \<^verbatim>\<open>ERR_PTR(-ENAMETOOLONG)\<close>.
\<close>

theorem dentry_path_capacity:
  "dentry_chain dc dentry xs \<Longrightarrow>
     (max 2 (int (names_length dc xs) + int (length xs) + 1) \<le> cap \<longrightarrow>
        fst (smith_dentry_path dc m dentry buf cap) =
          Ptr (buf + cap - 1 - int (length (chain_path dc xs))) \<and>
        map (snd (smith_dentry_path dc m dentry buf cap))
          [buf + cap - 1 - int (length (chain_path dc xs))..buf + cap - 2] = chain_path dc xs \<and>
        snd (smith_dentry_path dc m dentry buf cap) (buf + cap - 1) = 0) \<and>
     (cap = int (names_length dc xs) + int (length xs) \<longrightarrow>
        fst (smith_dentry_path dc m dentry buf cap) = ERR_PTR (- ENAMETOOLONG))"
proof (intro conjI impI)
  assume ch: "dentry_chain dc dentry xs"
  {
    assume cap: "max 2 (int (names_length dc xs) + int (length xs) + 1) \<le> cap"
    show "fst (smith_dentry_path dc m dentry buf cap) =
          Ptr (buf + cap - 1 - int (length (chain_path dc xs)))"
      by (rule sdp_succeeds(1) [OF ch cap])
    show "map (snd (smith_dentry_path dc m dentry buf cap))
          [buf + cap - 1 - int (length (chain_path dc xs))..buf + cap - 2] = chain_path dc xs"
      by (rule sdp_succeeds(2) [OF ch cap])
    show "snd (smith_dentry_path dc m dentry buf cap) (buf + cap - 1) = 0"
      by (rule sdp_succeeds(3) [OF ch cap])
  }
  assume "cap = int (names_length dc xs) + int (length xs)"
  then have "cap < max 2 (int (names_length dc xs) + int (length xs) + 1)" by simp
  with ch show "fst (smith_dentry_path dc m dentry buf cap) = ERR_PTR (- ENAMETOOLONG)"
    by (rule sdp_fails)
qed

text \<open>
  The chain of \<^verbatim>\<open>/usr/bin\<close> has \<open>L = 6\<close> and \<open>d = 2\<close>: capacity 9 succeeds, capacity 8
  fails.
\<close>

theorem dentry_path_capacity_witness:
  "dentry_chain example_dcache 3 [3, 2] \<and>
   fst (smith_dentry_path example_dcache example_memory 3 100 9) = Ptr 100 \<and>
   map (snd (smith_dentry_path example_dcache example_memory 3 100 9)) [100..107] =
     [0x2F, 0x75, 0x73, 0x72, 0x2F, 0x62, 0x69, 0x6E] \<and>
   snd (smith_dentry_path example_dcache example_memory 3 100 9) 108 = 0 \<and>
   fst (smith_dentry_path example_dcache example_memory 3 100 8) = ERR_PTR (- 36)"
proof -
  have ch: "dentry_chain example_dcache 3 [3, 2]"
    by (simp add: example_dcache_def IS_ROOT_def)
  have nl: "names_length example_dcache [3, 2] = 6"
    by (simp add: names_length_def example_dcache_def)
  have cp: "chain_path example_dcache [3, 2] = [0x2F, 0x75, 0x73, 0x72, 0x2F, 0x62, 0x69, 0x6E]"
    by (simp add: chain_path_def component_def name_bytes_def example_dcache_def bytes_of_def
        upto_rec1)
  have fits: "fst (smith_dentry_path example_dcache example_memory 3 100 9) = Ptr 100 \<and>
      map (snd (smith_dentry_path example_dcache example_memory 3 100 9)) [100..107] =
        [0x2F, 0x75, 0x73, 0x72, 0x2F, 0x62, 0x69, 0x6E] \<and>
      snd (smith_dentry_path example_dcache example_memory 3 100 9) 108 = 0"
    using dentry_path_capacity [OF ch, of 9 example_memory 100] by (simp add: nl cp)
  have short: "fst (smith_dentry_path example_dcache example_memory 3 100 8) = ERR_PTR (- 36)"
    using dentry_path_capacity [OF ch, of 8 example_memory 100]
    by (simp add: nl ENAMETOOLONG_def)
  from ch fits short show ?thesis by blast
qed

text \<open>
  C1 as stated fails for the root alone (\<open>d = 0\<close>, \<open>L = 0\<close>): capacity
  \<open>L + d + 1 = 1\<close> is rejected by the check \<^verbatim>\<open>buflen < 1\<close> that follows the reservation
  of the terminator.
\<close>

theorem dentry_path_root_capacity_counterexample:
  "dentry_chain example_dcache 0 [] \<and>
   int (names_length example_dcache []) + int (length ([] :: nat list)) + 1 \<le> 1 \<and>
   fst (smith_dentry_path example_dcache example_memory 0 100 1) = ERR_PTR (- ENAMETOOLONG)"
  by (simp add: example_dcache_def IS_ROOT_def names_length_def sdp_small)

text \<open>
  C6. The capacity is a C \<^verbatim>\<open>int\<close> that is not negative, and the names of the chain are
  shorter than \<open>2\<^sup>3\<^sup>1\<close> bytes, so that \<^verbatim>\<open>name->len\<close> keeps its value as the \<^verbatim>\<open>int\<close>
  parameter \<^verbatim>\<open>namelen\<close> and no subtraction from \<^verbatim>\<open>buflen\<close> wraps around. For a chain
  that needs \<open>max 2 (L + d + 1)\<close> bytes, every smaller capacity, so also the one that is
  one byte short, yields \<^verbatim>\<open>ERR_PTR(-ENAMETOOLONG)\<close>; and whatever the capacity, the call
  returns either that sentinel or the pointer to the whole path, never a pointer to part
  of it.
\<close>

theorem dentry_path_too_small:
  "dentry_chain dc dentry xs \<Longrightarrow> 0 \<le> cap \<Longrightarrow> cap < 2147483648 \<Longrightarrow>
   \<forall>x \<in> set xs. len (d_name (dc x)) < 2147483648 \<Longrightarrow>
     (cap < max 2 (int (names_length dc xs) + int (length xs) + 1) \<longrightarrow>
        fst (smith_dentry_path dc m dentry buf cap) = ERR_PTR (- ENAMETOOLONG)) \<and>
     (cap = max 2 (int (names_length dc xs) + int (length xs) + 1) - 1 \<longrightarrow>
        fst (smith_dentry_path dc m dentry buf cap) = ERR_PTR (- ENAMETOOLONG)) \<and>
     (fst (smith_dentry_path dc m dentry buf cap) = ERR_PTR (- ENAMETOOLONG) \<or>
      fst (smith_dentry_path dc m dentry buf cap) =
        Ptr (buf + cap - 1 - int (length (chain_path dc xs))) \<and>
      map (snd (smith_dentry_path dc m dentry buf cap))
        [buf + cap - 1 - int (length (chain_path dc xs))..buf + cap - 2] = chain_path dc xs)"
proof -
  assume ch: "dentry_chain dc dentry xs"
  have short: "fst (smith_dentry_path dc m dentry buf cap) = ERR_PTR (- ENAMETOOLONG)"
    if "cap < max 2 (int (names_length dc xs) + int (length xs) + 1)"
    using ch that by (rule sdp_fails)
  have one_short: "fst (smith_dentry_path dc m dentry buf cap) = ERR_PTR (- ENAMETOOLONG)"
    if "cap = max 2 (int (names_length dc xs) + int (length xs) + 1) - 1"
  proof -
    from that have "cap < max 2 (int (names_length dc xs) + int (length xs) + 1)"
      by linarith
    then show ?thesis by (rule short)
  qed
  have either: "fst (smith_dentry_path dc m dentry buf cap) = ERR_PTR (- ENAMETOOLONG) \<or>
      fst (smith_dentry_path dc m dentry buf cap) =
        Ptr (buf + cap - 1 - int (length (chain_path dc xs))) \<and>
      map (snd (smith_dentry_path dc m dentry buf cap))
        [buf + cap - 1 - int (length (chain_path dc xs))..buf + cap - 2] = chain_path dc xs"
  proof (cases "cap < max 2 (int (names_length dc xs) + int (length xs) + 1)")
    case True
    then show ?thesis by (simp add: short)
  next
    case False
    then have cap: "max 2 (int (names_length dc xs) + int (length xs) + 1) \<le> cap"
      by linarith
    from sdp_succeeds(1) [OF ch cap, of m buf] sdp_succeeds(2) [OF ch cap, of m buf]
    show ?thesis by blast
  qed
  from short one_short either show ?thesis by blast
qed

theorem dentry_path_too_small_witness:
  "dentry_chain example_dcache 3 [3, 2] \<and>
   fst (smith_dentry_path example_dcache example_memory 3 100 8) = ERR_PTR (- 36) \<and>
   fst (smith_dentry_path example_dcache example_memory 3 100 5) = ERR_PTR (- 36) \<and>
   fst (smith_dentry_path example_dcache example_memory 3 100 0) = ERR_PTR (- 36)"
proof -
  have ch: "dentry_chain example_dcache 3 [3, 2]"
    by (simp add: example_dcache_def IS_ROOT_def)
  have nl: "names_length example_dcache [3, 2] = 6"
    by (simp add: names_length_def example_dcache_def)
  have names: "\<forall>x \<in> set [3, 2]. len (d_name (example_dcache x)) < 2147483648"
    by (simp add: example_dcache_def)
  have c8: "(0::int) \<le> 8" "(8::int) < 2147483648" by simp_all
  have c5: "(0::int) \<le> 5" "(5::int) < 2147483648" by simp_all
  have c0: "(0::int) \<le> 0" "(0::int) < 2147483648" by simp_all
  have one_short: "fst (smith_dentry_path example_dcache example_memory 3 100 8) = ERR_PTR (- 36)"
    using dentry_path_too_small [OF ch c8 names, of example_memory 100]
    by (simp add: nl ENAMETOOLONG_def)
  have shorter: "fst (smith_dentry_path example_dcache example_memory 3 100 5) = ERR_PTR (- 36)"
    using dentry_path_too_small [OF ch c5 names, of example_memory 100]
    by (simp add: nl ENAMETOOLONG_def)
  have empty: "fst (smith_dentry_path example_dcache example_memory 3 100 0) = ERR_PTR (- 36)"
    using dentry_path_too_small [OF ch c0 names, of example_memory 100]
    by (simp add: nl ENAMETOOLONG_def)
  from ch one_short shorter empty show ?thesis by blast
qed

text \<open>
  C8. On a root node and a buffer of capacity at least 2 the call succeeds and returns
  the pointer to the last two bytes of the buffer, which hold \<^verbatim>\<open>'/'\<close> and NUL: the
  string \<^verbatim>\<open>"/"\<close>.
\<close>

theorem dentry_path_root:
  "IS_ROOT dc dentry \<Longrightarrow> 2 \<le> cap \<Longrightarrow>
     fst (smith_dentry_path dc m dentry buf cap) = Ptr (buf + cap - 2) \<and>
     map (snd (smith_dentry_path dc m dentry buf cap)) [buf + cap - 2..buf + cap - 1] = [0x2F, 0]"
proof -
  assume root: "IS_ROOT dc dentry" and c2: "2 \<le> cap"
  from root have ch: "dentry_chain dc dentry []" by simp
  from c2 have cap: "max 2 (int (names_length dc []) + int (length ([] :: nat list)) + 1) \<le> cap"
    by (simp add: names_length_def)
  have cp: "chain_path dc [] = [0x2F]" by (simp add: chain_path_def)
  have rng: "[buf + cap - 2..buf + cap - 1] = [buf + cap - 2, buf + cap - 1]"
    by (simp add: upto_rec1)
  from sdp_succeeds(1) [OF ch cap, of m buf]
  have p: "fst (smith_dentry_path dc m dentry buf cap) = Ptr (buf + cap - 2)"
    by (simp add: cp)
  from sdp_succeeds(2) [OF ch cap, of m buf]
  have slash: "snd (smith_dentry_path dc m dentry buf cap) (buf + cap - 2) = 0x2F"
    by (simp add: cp)
  from sdp_succeeds(3) [OF ch cap, of m buf] p slash show ?thesis
    by (simp add: rng)
qed

theorem dentry_path_root_witness:
  "IS_ROOT example_dcache 0 \<and>
   fst (smith_dentry_path example_dcache example_memory 0 100 2) = Ptr 100 \<and>
   map (snd (smith_dentry_path example_dcache example_memory 0 100 2)) [100..101] = [0x2F, 0]"
proof -
  have root: "IS_ROOT example_dcache 0"
    by (simp add: example_dcache_def IS_ROOT_def)
  have c2: "(2::int) \<le> 2" by simp
  from dentry_path_root [OF root c2, of example_memory 100] root show ?thesis by simp
qed

lemma chain_path_no_nul:
  "\<forall>x \<in> set xs. 0 \<notin> set (name_bytes (d_name (dc x))) \<Longrightarrow> 0 \<notin> set (chain_path dc xs)"
  by (auto simp: chain_path_def component_def)

text \<open>
  C9 as stated fails where a name holds a NUL: for the name 61 00 2F 62 and capacity 6
  the call succeeds and the buffer holds 2F 61 00 2F 62 00, so the C string at the
  returned pointer ends at its third byte, not at the reserved last byte.
\<close>

theorem dentry_path_inner_nul_counterexample:
  "dentry_chain nul_name_dcache 2 [2] \<and>
   fst (smith_dentry_path nul_name_dcache example_memory 2 100 6) = Ptr 100 \<and>
   map (snd (smith_dentry_path nul_name_dcache example_memory 2 100 6)) [100..105] =
     [0x2F, 0x61, 0, 0x2F, 0x62, 0] \<and>
   snd (smith_dentry_path nul_name_dcache example_memory 2 100 6) 102 = 0 \<and>
   (102 :: int) < 100 + 6 - 1"
proof -
  have ch: "dentry_chain nul_name_dcache 2 [2]"
    by (simp add: nul_name_dcache_def IS_ROOT_def)
  have nl: "names_length nul_name_dcache [2] = 4"
    by (simp add: names_length_def nul_name_dcache_def)
  have cp: "chain_path nul_name_dcache [2] = [0x2F, 0x61, 0, 0x2F, 0x62]"
    by (simp add: chain_path_def component_def name_bytes_def nul_name_dcache_def bytes_of_def
        upto_rec1)
  have fits: "max 2 (int (names_length nul_name_dcache [2]) + int (length [2 :: nat]) + 1) \<le> 6"
    by (simp add: nl)
  have p: "fst (smith_dentry_path nul_name_dcache example_memory 2 100 6) = Ptr 100"
    using sdp_succeeds(1) [OF ch fits, of example_memory 100] by (simp add: cp)
  have path: "map (snd (smith_dentry_path nul_name_dcache example_memory 2 100 6)) [100..104] =
      [0x2F, 0x61, 0, 0x2F, 0x62]"
    using sdp_succeeds(2) [OF ch fits, of example_memory 100] by (simp add: cp)
  have tail: "snd (smith_dentry_path nul_name_dcache example_memory 2 100 6) 105 = 0"
    using sdp_succeeds(3) [OF ch fits, of example_memory 100] by simp
  have split: "[100..105] = [100..104] @ [105 :: int]"
    by (simp add: upto_rec2)
  have all: "map (snd (smith_dentry_path nul_name_dcache example_memory 2 100 6)) [100..105] =
      [0x2F, 0x61, 0, 0x2F, 0x62, 0]"
    by (simp only: split map_append path list.map tail) simp
  have idx: "[100..104] ! 2 = (102 :: int)" by simp
  have "map (snd (smith_dentry_path nul_name_dcache example_memory 2 100 6)) [100..104] ! 2 =
      snd (smith_dentry_path nul_name_dcache example_memory 2 100 6) ([100..104] ! 2)"
    by (rule nth_map) simp
  then have inner: "snd (smith_dentry_path nul_name_dcache example_memory 2 100 6) 102 = 0"
    by (simp only: path idx) simp
  from ch p all inner show ?thesis by simp
qed

text \<open>
  C9, amended. The capacity is a C \<^verbatim>\<open>int\<close> that is at least 1, and every name is shorter
  than \<open>2\<^sup>3\<^sup>1\<close> bytes. The first \<^verbatim>\<open>prepend\<close>, which runs before any check, stores NUL
  in the last byte of the buffer, and that byte is NUL when the call returns. A returned
  pointer lies inside the buffer before that byte, and the bytes from the pointer up to
  that byte are exactly the path of the chain, so the caller has no terminator to write.
  Read as a C string the result ends at the reserved byte when no name of the chain holds
  a NUL: then no byte of the path is NUL.
\<close>

theorem dentry_path_nul_terminated:
  "1 \<le> cap \<Longrightarrow> cap < 2147483648 \<Longrightarrow> \<forall>x. len (d_name (dc x)) < 2147483648 \<Longrightarrow>
     mem (snd (prepend \<lparr>mem = m, buffer = buf + cap, buflen = cap\<rparr> (bytes_of [0, 0]) 1))
       (buf + cap - 1) = 0 \<and>
     snd (smith_dentry_path dc m dentry buf cap) (buf + cap - 1) = 0 \<and>
     (\<forall>p. fst (smith_dentry_path dc m dentry buf cap) = Ptr p \<longrightarrow>
        buf \<le> p \<and> p < buf + cap - 1 \<and>
        (\<forall>xs. dentry_chain dc dentry xs \<longrightarrow>
           map (snd (smith_dentry_path dc m dentry buf cap)) [p..buf + cap - 2] =
             chain_path dc xs \<and>
           ((\<forall>x \<in> set xs. 0 \<notin> set (name_bytes (d_name (dc x)))) \<longrightarrow>
              (\<forall>a. p \<le> a \<and> a < buf + cap - 1 \<longrightarrow>
                 snd (smith_dentry_path dc m dentry buf cap) a \<noteq> 0))))"
proof (intro conjI allI impI)
  assume c1: "1 \<le> cap"
  then show "mem (snd (prepend \<lparr>mem = m, buffer = buf + cap, buflen = cap\<rparr> (bytes_of [0, 0]) 1))
       (buf + cap - 1) = 0"
    by (simp add: prepend_success memcpy_one)
  from c1 show "snd (smith_dentry_path dc m dentry buf cap) (buf + cap - 1) = 0"
    by (rule sdp_nul)
  fix p
  assume p: "fst (smith_dentry_path dc m dentry buf cap) = Ptr p"
  from sdp_ptr_range [OF p] show "buf \<le> p" and "p < buf + cap - 1" by simp_all
  fix xs
  assume ch: "dentry_chain dc dentry xs"
  have cap: "max 2 (int (names_length dc xs) + int (length xs) + 1) \<le> cap"
  proof (rule ccontr)
    assume "\<not> ?thesis"
    then have "cap < max 2 (int (names_length dc xs) + int (length xs) + 1)" by linarith
    with ch have "fst (smith_dentry_path dc m dentry buf cap) = ERR_PTR (- ENAMETOOLONG)"
      by (rule sdp_fails)
    with p show False by simp
  qed
  from sdp_succeeds(1) [OF ch cap, of m buf] p
  have pe: "buf + cap - 1 - int (length (chain_path dc xs)) = p" by simp
  from sdp_succeeds(2) [OF ch cap, of m buf]
  show bytes: "map (snd (smith_dentry_path dc m dentry buf cap)) [p..buf + cap - 2] =
      chain_path dc xs"
    by (simp only: pe)
  fix a
  assume clean: "\<forall>x \<in> set xs. 0 \<notin> set (name_bytes (d_name (dc x)))"
    and a: "p \<le> a \<and> a < buf + cap - 1"
  from a have "a \<in> set [p..buf + cap - 2]" by simp
  then have "snd (smith_dentry_path dc m dentry buf cap) a \<in>
      set (map (snd (smith_dentry_path dc m dentry buf cap)) [p..buf + cap - 2])"
    by (simp only: set_map) (rule imageI)
  then have "snd (smith_dentry_path dc m dentry buf cap) a \<in> set (chain_path dc xs)"
    by (simp only: bytes)
  with chain_path_no_nul [OF clean]
  show "snd (smith_dentry_path dc m dentry buf cap) a \<noteq> 0" by metis
qed

theorem dentry_path_nul_terminated_witness:
  "(1::int) \<le> 9 \<and>
   mem (snd (prepend \<lparr>mem = example_memory, buffer = 100 + 9, buflen = 9\<rparr> (bytes_of [0, 0]) 1))
     (100 + 9 - 1) = 0 \<and>
   snd (smith_dentry_path example_dcache example_memory 3 100 9) 108 = 0 \<and>
   fst (smith_dentry_path example_dcache example_memory 3 100 9) = Ptr 100 \<and>
   map (snd (smith_dentry_path example_dcache example_memory 3 100 9)) [100..107] =
     [0x2F, 0x75, 0x73, 0x72, 0x2F, 0x62, 0x69, 0x6E] \<and>
   snd (smith_dentry_path example_dcache example_memory 3 100 9) 107 \<noteq> 0"
proof -
  have c1: "(1::int) \<le> 9" and c31: "(9::int) < 2147483648" by simp_all
  have names: "\<forall>x. len (d_name (example_dcache x)) < 2147483648"
    by (simp add: example_dcache_def)
  note T = dentry_path_nul_terminated [OF c1 c31 names, of example_memory 100 3]
  have ch: "dentry_chain example_dcache 3 [3, 2]"
    by (simp add: example_dcache_def IS_ROOT_def)
  have nl: "names_length example_dcache [3, 2] = 6"
    by (simp add: names_length_def example_dcache_def)
  have cp: "chain_path example_dcache [3, 2] = [0x2F, 0x75, 0x73, 0x72, 0x2F, 0x62, 0x69, 0x6E]"
    by (simp add: chain_path_def component_def name_bytes_def example_dcache_def bytes_of_def
        upto_rec1)
  have bin: "name_bytes (d_name (example_dcache 3)) = [0x62, 0x69, 0x6E]"
    by (simp add: name_bytes_def example_dcache_def bytes_of_def upto_rec1)
  have usr: "name_bytes (d_name (example_dcache 2)) = [0x75, 0x73, 0x72]"
    by (simp add: name_bytes_def example_dcache_def bytes_of_def upto_rec1)
  have clean: "\<forall>x \<in> set [3, 2]. 0 \<notin> set (name_bytes (d_name (example_dcache x)))"
    by (simp add: bin usr)
  have fits: "max 2 (int (names_length example_dcache [3, 2]) + int (length [3, 2 :: nat]) + 1) \<le> 9"
    by (simp add: nl)
  have p: "fst (smith_dentry_path example_dcache example_memory 3 100 9) = Ptr 100"
    using sdp_succeeds(1) [OF ch fits, of example_memory 100]
    by (simp add: cp)
  from T have first: "mem (snd (prepend \<lparr>mem = example_memory, buffer = 100 + 9, buflen = 9\<rparr>
      (bytes_of [0, 0]) 1)) (100 + 9 - 1) = 0"
    by (rule conjunct1)
  from T have tail: "snd (smith_dentry_path example_dcache example_memory 3 100 9) 108 = 0"
    by simp
  from T p ch
  have "map (snd (smith_dentry_path example_dcache example_memory 3 100 9)) [100..100 + 9 - 2] =
      chain_path example_dcache [3, 2]"
    by blast
  then have path: "map (snd (smith_dentry_path example_dcache example_memory 3 100 9)) [100..107] =
      [0x2F, 0x75, 0x73, 0x72, 0x2F, 0x62, 0x69, 0x6E]"
    by (simp only: cp) simp
  from T p ch clean
  have "\<forall>a. 100 \<le> a \<and> a < 100 + 9 - 1 \<longrightarrow>
      snd (smith_dentry_path example_dcache example_memory 3 100 9) a \<noteq> 0"
    by blast
  then have last: "snd (smith_dentry_path example_dcache example_memory 3 100 9) 107 \<noteq> 0"
    by simp
  from c1 first tail p path last show ?thesis by blast
qed

section \<open>Properties of the symbol resolver\<close>

lemma lookup_cached:
  "kallsyms_lookup_name_sym st \<noteq> 0 \<Longrightarrow>
     smith_kallsyms_lookup_name env st symbol = (call_addr env (kallsyms_lookup_name_sym st) symbol, st)"
  by (simp add: smith_kallsyms_lookup_name_def)

lemma lookup_all_cached:
  "kallsyms_lookup_name_sym st \<noteq> 0 \<Longrightarrow>
     lookup_all env st symbols = (map (call_addr env (kallsyms_lookup_name_sym st)) symbols, st)"
  by (induction symbols) (simp_all add: lookup_cached)

lemma lookup_first_success:
  "smith_kallsyms_lookup_name env st0 symbol = (r, st) \<Longrightarrow> kallsyms_lookup_name_sym st \<noteq> 0 \<Longrightarrow>
     r = call_addr env (kallsyms_lookup_name_sym st) symbol"
  by (auto simp: smith_kallsyms_lookup_name_def Let_def split: if_splits prod.splits)

lemma lookup_registration_fails:
  "kallsyms_lookup_name_sym st = 0 \<Longrightarrow> fst (register_kprobe env (registrations st)) \<noteq> 0 \<Longrightarrow>
     smith_kallsyms_lookup_name env st symbol = (0, st\<lparr>registrations := registrations st + 1\<rparr>)"
  by (cases st) (auto simp: smith_kallsyms_lookup_name_def get_kallsyms_func_def Let_def split: prod.splits)

lemma lookup_registration_succeeds:
  "kallsyms_lookup_name_sym st = 0 \<Longrightarrow> register_kprobe env (registrations st) = (0, a) \<Longrightarrow> a \<noteq> 0 \<Longrightarrow>
     smith_kallsyms_lookup_name env st symbol =
       (call_addr env a symbol,
        st\<lparr>kallsyms_lookup_name_sym := a, registrations := registrations st + 1,
           unregistrations := unregistrations st + 1\<rparr>)"
  by (cases st) (auto simp: smith_kallsyms_lookup_name_def get_kallsyms_func_def Let_def split: prod.splits)

lemma lookup_registers_once:
  "kallsyms_lookup_name_sym st = 0 \<Longrightarrow>
     registrations (snd (smith_kallsyms_lookup_name env st symbol)) = registrations st + 1"
  by (auto simp: smith_kallsyms_lookup_name_def get_kallsyms_func_def Let_def split: prod.splits)

text \<open>
  C3. A call that finds the cache empty and whose registration of the probe succeeds
  with an address stores that address in the cache and returns what the routine at the
  address returns. Every later sequence of calls returns, name by name, what the routine
  at the same address returns and leaves the state as that call left it: the cache keeps
  the address and \<^verbatim>\<open>register_kprobe\<close> has been called once and is not called again.
\<close>

theorem resolver_uses_cache:
  "kallsyms_lookup_name_sym st0 = 0 \<Longrightarrow> register_kprobe env (registrations st0) = (0, a) \<Longrightarrow>
   a \<noteq> 0 \<Longrightarrow>
     smith_kallsyms_lookup_name env st0 symbol0 =
       (call_addr env a symbol0,
        st0\<lparr>kallsyms_lookup_name_sym := a, registrations := registrations st0 + 1,
            unregistrations := unregistrations st0 + 1\<rparr>) \<and>
     lookup_all env (snd (smith_kallsyms_lookup_name env st0 symbol0)) symbols =
       (map (call_addr env a) symbols, snd (smith_kallsyms_lookup_name env st0 symbol0)) \<and>
     kallsyms_lookup_name_sym
       (snd (lookup_all env (snd (smith_kallsyms_lookup_name env st0 symbol0)) symbols)) = a \<and>
     registrations
       (snd (lookup_all env (snd (smith_kallsyms_lookup_name env st0 symbol0)) symbols)) =
       registrations st0 + 1"
proof -
  assume null: "kallsyms_lookup_name_sym st0 = 0"
    and reg: "register_kprobe env (registrations st0) = (0, a)" and a: "a \<noteq> 0"
  define st where "st = st0\<lparr>kallsyms_lookup_name_sym := a, registrations := registrations st0 + 1,
      unregistrations := unregistrations st0 + 1\<rparr>"
  have first: "smith_kallsyms_lookup_name env st0 symbol0 = (call_addr env a symbol0, st)"
    unfolding st_def by (rule lookup_registration_succeeds [OF null reg a])
  have cache: "kallsyms_lookup_name_sym st = a" and count: "registrations st = registrations st0 + 1"
    by (simp_all add: st_def)
  from a cache have set: "kallsyms_lookup_name_sym st \<noteq> 0" by simp
  have later: "lookup_all env st symbols = (map (call_addr env a) symbols, st)"
    using lookup_all_cached [OF set, of env symbols] by (simp only: cache)
  from first later cache count show ?thesis
    by (simp add: st_def)
qed

theorem resolver_uses_cache_witness:
  "lookup_all example_env
     (snd (smith_kallsyms_lookup_name example_env
             \<lparr>kallsyms_lookup_name_sym = 0, registrations = 2, unregistrations = 0\<rparr>
             ''sys_call_table''))
     [''sys_call_table'', ''no_such_symbol'', ''sys_call_table''] =
     ([0xFFFFFFFF82000100, 0, 0xFFFFFFFF82000100],
      \<lparr>kallsyms_lookup_name_sym = 0xFFFFFFFF81234560, registrations = 3, unregistrations = 1\<rparr>) \<and>
   smith_kallsyms_lookup_name example_env
     \<lparr>kallsyms_lookup_name_sym = 0, registrations = 2, unregistrations = 0\<rparr>
     ''sys_call_table'' =
     (0xFFFFFFFF82000100,
      \<lparr>kallsyms_lookup_name_sym = 0xFFFFFFFF81234560, registrations = 3, unregistrations = 1\<rparr>)"
proof -
  let ?st0 = "\<lparr>kallsyms_lookup_name_sym = 0, registrations = 2, unregistrations = 0\<rparr>"
  have null: "kallsyms_lookup_name_sym ?st0 = 0" by simp
  have reg: "register_kprobe example_env (registrations ?st0) = (0, 0xFFFFFFFF81234560)"
    by (simp add: example_env_def)
  have a: "(0xFFFFFFFF81234560 :: ulong) \<noteq> 0" by simp
  note T = resolver_uses_cache [OF null reg a, of "''sys_call_table''"
      "[''sys_call_table'', ''no_such_symbol'', ''sys_call_table'']"]
  from T have first: "smith_kallsyms_lookup_name example_env ?st0 ''sys_call_table'' =
     (0xFFFFFFFF82000100,
      \<lparr>kallsyms_lookup_name_sym = 0xFFFFFFFF81234560, registrations = 3, unregistrations = 1\<rparr>)"
    by (simp add: example_env_def)
  from T have later: "lookup_all example_env
      (snd (smith_kallsyms_lookup_name example_env ?st0 ''sys_call_table''))
      [''sys_call_table'', ''no_such_symbol'', ''sys_call_table''] =
     (map (call_addr example_env 0xFFFFFFFF81234560)
        [''sys_call_table'', ''no_such_symbol'', ''sys_call_table''],
      snd (smith_kallsyms_lookup_name example_env ?st0 ''sys_call_table''))"
    by blast
  have answers: "map (call_addr example_env 0xFFFFFFFF81234560)
      [''sys_call_table'', ''no_such_symbol'', ''sys_call_table''] =
      [0xFFFFFFFF82000100, 0, 0xFFFFFFFF82000100]"
    by (simp add: example_env_def)
  from later have "lookup_all example_env
      (snd (smith_kallsyms_lookup_name example_env ?st0 ''sys_call_table''))
      [''sys_call_table'', ''no_such_symbol'', ''sys_call_table''] =
     ([0xFFFFFFFF82000100, 0, 0xFFFFFFFF82000100],
      \<lparr>kallsyms_lookup_name_sym = 0xFFFFFFFF81234560, registrations = 3, unregistrations = 1\<rparr>)"
    by (simp only: answers first snd_conv)
  with first show ?thesis by blast
qed

text \<open>
  C5. With an empty cache and a registration that fails, the call returns 0 and changes
  nothing but the count of registrations: the cache stays empty. The next call registers
  the probe again, and if that registration succeeds with an address, it returns what
  the routine at that address returns.
\<close>

theorem resolver_registration_failure:
  "kallsyms_lookup_name_sym st = 0 \<Longrightarrow> fst (register_kprobe env (registrations st)) \<noteq> 0 \<Longrightarrow>
     smith_kallsyms_lookup_name env st symbol = (0, st\<lparr>registrations := registrations st + 1\<rparr>) \<and>
     kallsyms_lookup_name_sym (snd (smith_kallsyms_lookup_name env st symbol)) = 0 \<and>
     registrations (snd (smith_kallsyms_lookup_name env
                           (snd (smith_kallsyms_lookup_name env st symbol)) symbol')) =
       registrations st + 2 \<and>
     (\<forall>a. register_kprobe env (registrations st + 1) = (0, a) \<and> a \<noteq> 0 \<longrightarrow>
        fst (smith_kallsyms_lookup_name env
               (snd (smith_kallsyms_lookup_name env st symbol)) symbol') = call_addr env a symbol')"
proof -
  assume null: "kallsyms_lookup_name_sym st = 0"
    and fail: "fst (register_kprobe env (registrations st)) \<noteq> 0"
  let ?st1 = "st\<lparr>registrations := registrations st + 1\<rparr>"
  have one: "smith_kallsyms_lookup_name env st symbol = (0, ?st1)"
    by (rule lookup_registration_fails [OF null fail])
  have null1: "kallsyms_lookup_name_sym ?st1 = 0" using null by simp
  have again: "registrations (snd (smith_kallsyms_lookup_name env ?st1 symbol')) =
      registrations st + 2"
    using lookup_registers_once [OF null1, of env symbol'] by simp
  have retry: "fst (smith_kallsyms_lookup_name env ?st1 symbol') = call_addr env a symbol'"
    if "register_kprobe env (registrations st + 1) = (0, a) \<and> a \<noteq> 0" for a
    using that lookup_registration_succeeds [OF null1, of env a symbol'] by simp
  from one null1 again retry show ?thesis by simp
qed

theorem resolver_registration_failure_witness:
  "smith_kallsyms_lookup_name example_env resolver_init ''sys_call_table'' =
     (0, resolver_init\<lparr>registrations := 1\<rparr>) \<and>
   fst (smith_kallsyms_lookup_name example_env
          (snd (smith_kallsyms_lookup_name example_env resolver_init ''sys_call_table''))
          ''sys_call_table'') = 0xFFFFFFFF82000100"
proof -
  have null: "kallsyms_lookup_name_sym resolver_init = 0"
    by (simp add: resolver_init_def)
  have fail: "fst (register_kprobe example_env (registrations resolver_init)) \<noteq> 0"
    by (simp add: resolver_init_def example_env_def)
  have next_ok: "register_kprobe example_env (registrations resolver_init + 1) =
      (0, 0xFFFFFFFF81234560) \<and> (0xFFFFFFFF81234560 :: ulong) \<noteq> 0"
    by (simp add: resolver_init_def example_env_def)
  have res: "call_addr example_env 0xFFFFFFFF81234560 ''sys_call_table'' = 0xFFFFFFFF82000100"
    by (simp add: example_env_def)
  note T = resolver_registration_failure [OF null fail, of "''sys_call_table''" "''sys_call_table''"]
  from T have a: "smith_kallsyms_lookup_name example_env resolver_init ''sys_call_table'' =
     (0, resolver_init\<lparr>registrations := 1\<rparr>)"
    by (simp add: resolver_init_def)
  from T next_ok have b: "fst (smith_kallsyms_lookup_name example_env
          (snd (smith_kallsyms_lookup_name example_env resolver_init ''sys_call_table''))
          ''sys_call_table'') = call_addr example_env 0xFFFFFFFF81234560 ''sys_call_table''"
    by blast
  from a b res show ?thesis by (simp only:) 
qed

section \<open>Properties of the volume-identity locator\<close>

text \<open>
  C7. For a build configuration, \<^verbatim>\<open>smith_query_sb_uuid\<close> returns the address of the
  descriptor plus the offset the configuration selects; the result is the same whatever
  the memory holds, and the function has no error value.
\<close>

theorem sb_uuid_fixed_offset:
  "smith_query_sb_uuid cfg m sb =
     sb + int (if LINUX_VERSION_CODE cfg < KERNEL_VERSION 2 6 39
               then offsetof_s_dev cfg else offsetof_s_uuid cfg) \<and>
   smith_query_sb_uuid cfg m sb = smith_query_sb_uuid cfg m' sb"
  by (simp add: smith_query_sb_uuid_def)

theorem sb_uuid_fixed_offset_witness:
  "smith_query_sb_uuid example_config example_memory 4096 = 5272 \<and>
   smith_query_sb_uuid example_config example_memory 4096 =
     smith_query_sb_uuid example_config (bytes_of [1, 2, 3]) 4096"
  using sb_uuid_fixed_offset [of example_config example_memory 4096 "bytes_of [1, 2, 3]"]
  by (simp add: example_config_def KERNEL_VERSION_def)

end
